theory Spec2Isabelle
  imports Complex_Main "HOL-Library.Sublist"
begin

section \<open>The timeline core of server.js\<close>

text \<open>
  The development embeds the caption normalizer, the word wrapper, the subtitle cue
  loop and the segment and crossfade arithmetic of \<^verbatim>\<open>server.js\<close>.

  Conventions of the embedding.
  \<^item> A JavaScript number is a \<open>jsnum\<close>: a finite value, \<open>NaN\<close> or one of the two
    infinities. Finite values are exact rationals: the rounding of IEEE doubles is not
    modelled, only \<open>Math.round\<close>, \<open>Math.floor\<close> and \<open>Math.ceil\<close> are.
  \<^item> A string is a list of code units below 256.
  \<^item> A caption entry is read through the three coercions the normalizer applies to it
    (\<open>Number(c?.start_ms)\<close>, \<open>Number(c?.end_ms)\<close>, \<open>String(c?.text || "")\<close>): the record
    \<open>raw_caption\<close> holds their results. A missing or non-numeric field is \<open>NaN\<close>.
    The coercions themselves are not part of the model.
  \<^item> Reading a property of an array element that does not exist raises a
    \<open>TypeError\<close> in JavaScript; every such read is a branch of the model.
\<close>

subsection \<open>Numbers\<close>

datatype jsnum = Fin rat | NaN | PosInf | NegInf

datatype error = TypeError

text \<open>
  \<open>Number.isFinite(x)\<close> holds exactly for the values \<open>Fin r\<close>; the model tests it by
  matching on the constructor.
\<close>

definition Math_round :: "rat \<Rightarrow> rat" where
  "Math_round x = of_int \<lfloor>x + 1 / 2\<rfloor>"

definition Math_floor :: "rat \<Rightarrow> rat" where
  "Math_floor x = of_int \<lfloor>x\<rfloor>"

definition Math_ceil :: "rat \<Rightarrow> rat" where
  "Math_ceil x = of_int \<lceil>x\<rceil>"

subsection \<open>Strings\<close>

text \<open>The code units that \<open>\s\<close> and \<open>trim\<close> treat as white space, below 256.\<close>

definition is_ws :: "char \<Rightarrow> bool" where
  "is_ws c = (c \<in> set [CHR 0x09, CHR 0x0A, CHR 0x0B, CHR 0x0C, CHR 0x0D, CHR 0x20, CHR 0xA0])"

definition trim :: "string \<Rightarrow> string" where
  "trim s = rev (dropWhile is_ws (rev (dropWhile is_ws s)))"

text \<open>
  \<open>s.replace(/\s+/g, " ")\<close>: every maximal run of white space becomes one space.
  The flag says whether the previous code unit belonged to a run.
\<close>

fun collapse_run :: "bool \<Rightarrow> string \<Rightarrow> string" where
  "collapse_run in_run [] = []"
| "collapse_run in_run (c # cs) =
     (if is_ws c then (if in_run then collapse_run True cs else CHR '' '' # collapse_run True cs)
      else c # collapse_run False cs)"

definition collapse_ws :: "string \<Rightarrow> string" where
  "collapse_ws s = collapse_run False s"

text \<open>\<open>s.split(" ")\<close>: the pieces between single spaces; the empty string gives one empty piece.\<close>

fun split_sp :: "string \<Rightarrow> string list" where
  "split_sp [] = [[]]"
| "split_sp (c # cs) =
     (if c = CHR '' '' then [] # split_sp cs
      else (case split_sp cs of [] \<Rightarrow> [[c]] | w # ws \<Rightarrow> (c # w) # ws))"

text \<open>\<open>xs.join(sep)\<close>.\<close>

fun join :: "string \<Rightarrow> string list \<Rightarrow> string" where
  "join sep [] = []"
| "join sep [x] = x"
| "join sep (x # y # ys) = x @ sep @ join sep (y # ys)"

subsection \<open>The caption normalizer\<close>

record raw_caption =
  raw_start_ms :: jsnum
  raw_end_ms :: jsnum
  raw_text :: string

text \<open>The \<open>captions\<close> argument: some value that is not an array, or an array of entries.\<close>

datatype captions_value = NotAnArray | Array "raw_caption list"

record item =
  dur_ms :: rat
  item_text :: string

record caption =
  start_ms :: rat
  end_ms :: rat
  caption_text :: string

text \<open>
  Lines 94 to 101: the entries that survive the filter, as \<open>{dur_ms, text}\<close> (the field
  \<open>text\<close> is \<open>item_text\<close> here).
\<close>

fun collect_items :: "raw_caption list \<Rightarrow> item list" where
  "collect_items [] = []"
| "collect_items (c # cs) =
     (case (raw_start_ms c, raw_end_ms c) of
        (Fin start, Fin end) \<Rightarrow>
          (let txt = trim (raw_text c) in
           if end \<le> start \<or> txt = [] then collect_items cs
           else \<lparr>dur_ms = end - start, item_text = txt\<rparr> # collect_items cs)
      | _ \<Rightarrow> collect_items cs)"

text \<open>Lines 105 to 112: the layout without a target, back to back from \<open>cur\<close>.\<close>

fun layout_unscaled :: "rat \<Rightarrow> item list \<Rightarrow> caption list" where
  "layout_unscaled cur [] = []"
| "layout_unscaled cur (it # its) =
     (let dur = max 1 (Math_round (dur_ms it)) in
      \<lparr>start_ms = cur, end_ms = cur + dur, caption_text = item_text it\<rparr>
        # layout_unscaled (cur + dur) its)"

text \<open>Lines 120 to 124: the minimum segment length for target \<open>audioMs\<close> and \<open>n\<close> entries.\<close>

definition minSegMs :: "rat \<Rightarrow> nat \<Rightarrow> rat" where
  "minSegMs audioMs n =
     (let maxPossibleMin = Math_floor (audioMs / of_nat n) in
      if maxPossibleMin \<le> 0 then 80
      else if 600 > maxPossibleMin then max 80 maxPossibleMin
      else 600)"

text \<open>Lines 126 to 129.\<close>

definition scale_items :: "rat \<Rightarrow> rat \<Rightarrow> item list \<Rightarrow> item list" where
  "scale_items minSeg factor items =
     map (\<lambda>it. let d = max 1 (Math_round (dur_ms it)) in
               \<lparr>dur_ms = max minSeg (Math_round (d * factor)), item_text = item_text it\<rparr>) items"

text \<open>
  Lines 135 to 138: the indices of \<open>scaled\<close>, longest duration first. \<open>Array.prototype.sort\<close>
  is stable, as \<open>sort_key\<close> is.
\<close>

definition sorted_idx :: "item list \<Rightarrow> nat list" where
  "sorted_idx scaled =
     map fst (sort_key (\<lambda>x. - snd x) (zip [0 ..< length scaled] (map dur_ms scaled)))"

text \<open>
  Lines 142 to 145 and 150 to 153: the body the two passes share. Entry \<open>i\<close> gives up
  what it has above \<open>lo\<close>, at most \<open>over\<close>.
\<close>

definition reduce_at :: "rat \<Rightarrow> nat \<Rightarrow> item list \<Rightarrow> rat \<Rightarrow> item list \<times> rat" where
  "reduce_at lo i scaled over =
     (let canReduce = max 0 (dur_ms (scaled ! i) - lo);
          reduceBy = min canReduce over
      in (scaled[i := (scaled ! i)\<lparr>dur_ms := dur_ms (scaled ! i) - reduceBy\<rparr>], over - reduceBy))"

text \<open>Lines 140 to 146: the first pass, over \<open>idx\<close>, down to \<open>minSegMs\<close>.\<close>

fun pass1 :: "rat \<Rightarrow> nat list \<Rightarrow> item list \<Rightarrow> rat \<Rightarrow> error + (item list \<times> rat)" where
  "pass1 minSeg [] scaled over = Inr (scaled, over)"
| "pass1 minSeg (i # idx) scaled over =
     (if over \<le> 0 then Inr (scaled, over)
      else if \<not> i < length scaled then Inl TypeError
      else (case reduce_at minSeg i scaled over of
              (scaled', over') \<Rightarrow> pass1 minSeg idx scaled' over'))"

text \<open>
  Lines 149 to 154: the second pass, from the last entry backwards, down to 1 ms.
  The first argument is \<open>i + 1\<close>.
\<close>

fun pass2 :: "nat \<Rightarrow> item list \<Rightarrow> rat \<Rightarrow> error + (item list \<times> rat)" where
  "pass2 0 scaled over = Inr (scaled, over)"
| "pass2 (Suc i) scaled over =
     (if \<not> over > 0 then Inr (scaled, over)
      else if \<not> i < length scaled then Inl TypeError
      else (case reduce_at 1 i scaled over of
              (scaled', over') \<Rightarrow> pass2 i scaled' over'))"

text \<open>Lines 133 to 158: the adjustment of the scaled durations to the target.\<close>

definition adjust :: "rat \<Rightarrow> rat \<Rightarrow> item list \<Rightarrow> error + item list" where
  "adjust audioMs minSeg scaled =
     (let sum = sum_list (map dur_ms scaled) in
      if sum > audioMs then
        (case pass1 minSeg (sorted_idx scaled) scaled (sum - audioMs) of
           Inl e \<Rightarrow> Inl e
         | Inr (scaled1, over) \<Rightarrow>
             if over > 0 then
               (case pass2 (length scaled1) scaled1 over of
                  Inl e \<Rightarrow> Inl e
                | Inr (scaled2, _) \<Rightarrow> Inr scaled2)
             else Inr scaled1)
      else if sum < audioMs then
        (if scaled = [] then Inl TypeError
         else
           (let l = length scaled - 1 in
            Inr (scaled[l := (scaled ! l)\<lparr>dur_ms := dur_ms (scaled ! l) + (audioMs - sum)\<rparr>])))
      else Inr scaled)"

text \<open>Lines 160 to 168: the start and end times, the last end being the target.\<close>

fun layout :: "rat \<Rightarrow> rat \<Rightarrow> item list \<Rightarrow> caption list" where
  "layout audioMs cur [] = []"
| "layout audioMs cur (x # xs) =
     (let dur = max 1 (Math_round (dur_ms x));
          start = cur;
          end = (if xs = [] then audioMs else start + dur)
      in \<lparr>start_ms = start, end_ms = end, caption_text = item_text x\<rparr> # layout audioMs end xs)"

text \<open>Line 169.\<close>

definition set_last_end :: "rat \<Rightarrow> caption list \<Rightarrow> caption list" where
  "set_last_end audioMs out =
     (if out = [] then out
      else out[length out - 1 := (out ! (length out - 1))\<lparr>end_ms := audioMs\<rparr>])"

text \<open>Line 115.\<close>

definition totalDur :: "item list \<Rightarrow> rat" where
  "totalDur items = sum_list (map (\<lambda>it. max 1 (Math_round (dur_ms it))) items)"

text \<open>Lines 115 to 171: the branch with a known target.\<close>

definition scale_to :: "rat \<Rightarrow> item list \<Rightarrow> error + caption list" where
  "scale_to audioMs items =
     (if totalDur items \<le> 0 then Inr []
      else
        (let factor = audioMs / totalDur items;
             n = length items;
             minSeg = minSegMs audioMs n;
             scaled = scale_items minSeg factor items
         in case adjust audioMs minSeg scaled of
              Inl e \<Rightarrow> Inl e
            | Inr scaled' \<Rightarrow> Inr (set_last_end audioMs (layout audioMs 0 scaled'))))"

definition normalizeAndScaleCaptions :: "captions_value \<Rightarrow> jsnum \<Rightarrow> error + caption list" where
  "normalizeAndScaleCaptions captions audioMs =
     (case captions of
        NotAnArray \<Rightarrow> Inr []
      | Array cs \<Rightarrow>
          (let items = collect_items cs in
           if items = [] then Inr []
           else
             (case audioMs of
                Fin a \<Rightarrow> if a \<le> 0 then Inr (layout_unscaled 0 items) else scale_to a items
              | _ \<Rightarrow> Inr (layout_unscaled 0 items))))"

subsection \<open>The word wrapper\<close>

text \<open>
  Lines 54 to 66: the loop over the words, with its early exit. The result is the pair of
  \<open>lines\<close> and \<open>cur\<close> when the loop is left.
\<close>

fun wrap_loop :: "int \<Rightarrow> int \<Rightarrow> string list \<Rightarrow> string list \<Rightarrow> string \<Rightarrow> string list \<times> string" where
  "wrap_loop maxCharsPerLine maxLines [] lines cur = (lines, cur)"
| "wrap_loop maxCharsPerLine maxLines (w # ws) lines cur =
     (let cand = (if cur \<noteq> [] then cur @ '' '' @ w else w) in
      if int (length cand) \<le> maxCharsPerLine
      then wrap_loop maxCharsPerLine maxLines ws lines cand
      else
        (let lines' = (if cur \<noteq> [] then lines @ [cur] else lines) in
         if int (length lines') \<ge> maxLines - 1 then (lines', w)
         else wrap_loop maxCharsPerLine maxLines ws lines' w))"

text \<open>Lines 74 to 80: the last line takes the words that fit and stops at the first that does not.\<close>

fun fill_last :: "int \<Rightarrow> string \<Rightarrow> string list \<Rightarrow> string" where
  "fill_last maxCharsPerLine last' [] = last'"
| "fill_last maxCharsPerLine last' (w # restWords) =
     (let cand = last' @ '' '' @ w in
      if int (length cand) \<le> maxCharsPerLine then fill_last maxCharsPerLine cand restWords
      else last')"

text \<open>\<open>xs.filter(Boolean).length\<close> on an array of strings: the number of non-empty ones.\<close>

definition count_nonempty :: "string list \<Rightarrow> nat" where
  "count_nonempty xs = length (filter (\<lambda>s. s \<noteq> []) xs)"

text \<open>Lines 50 to 84: the array \<open>lines\<close> when line 86 is reached, for the cleaned text \<open>t\<close>.\<close>

definition wrap_lines :: "string \<Rightarrow> int \<Rightarrow> int \<Rightarrow> string list" where
  "wrap_lines t maxCharsPerLine maxLines =
     (let words = split_sp t in
      case wrap_loop maxCharsPerLine maxLines words [] [] of
        (lines, cur) \<Rightarrow>
          if cur \<noteq> [] \<and> int (length lines) < maxLines then
            (let usedWords = count_nonempty (split_sp (join '' '' lines))
                               + count_nonempty (split_sp cur);
                 remaining = trim (join '' '' (drop usedWords words));
                 cur' = (if remaining \<noteq> []
                         then fill_last maxCharsPerLine cur (split_sp remaining)
                         else cur)
             in lines @ [cur'])
          else lines)"

text \<open>The line break token of the subtitle format: a backslash and \<open>N\<close>.\<close>

definition line_break :: string where
  "line_break = [CHR 0x5C, CHR ''N'']"

definition wrapByChars :: "string \<Rightarrow> int \<Rightarrow> int \<Rightarrow> string" where
  "wrapByChars txt maxCharsPerLine maxLines =
     (let t = trim (collapse_ws txt) in
      if t = [] then []
      else
        (let lines = wrap_lines t maxCharsPerLine maxLines in
         if lines = [] then t else join line_break lines))"

subsection \<open>The subtitle cues\<close>











subsection \<open>Segments, crossfades and totals\<close>





record segments =
  seg1 :: rat
  seg2 :: rat
  seg3 :: rat
  seg4 :: rat
  effectiveAudioMs :: rat






text \<open>Lines 425 to 435. The crossfade lasts \<open>xfadeDur\<close> seconds; the offsets are in seconds.\<close>

definition xfadeDur :: rat where
  "xfadeDur = 3 / 10"

definition safeSeg1 :: "segments \<Rightarrow> rat" where
  "safeSeg1 sg = max (seg1 sg) (Math_ceil (xfadeDur * 1000) + 1)"

definition safeSeg2 :: "segments \<Rightarrow> rat" where
  "safeSeg2 sg = max (seg2 sg) (Math_ceil (xfadeDur * 1000) + 1)"

definition safeSeg3 :: "segments \<Rightarrow> rat" where
  "safeSeg3 sg = max (seg3 sg) (Math_ceil (xfadeDur * 1000) + 1)"

definition safeSeg4 :: "segments \<Rightarrow> rat" where
  "safeSeg4 sg = max (seg4 sg) 1"

definition off1 :: "segments \<Rightarrow> rat" where
  "off1 sg = max (1 / 1000) (safeSeg1 sg / 1000 - xfadeDur)"

definition off2 :: "segments \<Rightarrow> rat" where
  "off2 sg = max (1 / 1000) ((safeSeg1 sg + safeSeg2 sg) / 1000 - 2 * xfadeDur)"

definition off3 :: "segments \<Rightarrow> rat" where
  "off3 sg = max (1 / 1000) ((safeSeg1 sg + safeSeg2 sg + safeSeg3 sg) / 1000 - 3 * xfadeDur)"


subsection \<open>Notions used in the statements\<close>

text \<open>
  The minimum segment length in the words of the specification (section 4.1, step c):
  600 by default, 80 if \<open>T / N \<le> 0\<close>, else \<open>max(80, floor(T / N))\<close> if \<open>600 > T / N\<close>.
\<close>

definition minSegMs_spec :: "rat \<Rightarrow> nat \<Rightarrow> rat" where
  "minSegMs_spec T N =
     (if T / of_nat N \<le> 0 then 80
      else if 600 > T / of_nat N then max 80 (of_int \<lfloor>T / of_nat N\<rfloor>)
      else 600)"




subsection \<open>Example inputs\<close>



subsection \<open>Notions used in the proofs\<close>



text \<open>A word: not empty and free of white space.\<close>

definition is_word :: "string \<Rightarrow> bool" where
  "is_word w \<longleftrightarrow> w \<noteq> [] \<and> (\<forall>c \<in> set w. \<not> is_ws c)"

text \<open>The words that \<open>lines\<close> and \<open>cur\<close> hold during the wrapper's loop.\<close>

definition held :: "string list \<Rightarrow> string \<Rightarrow> string list" where
  "held lines cur = concat (map split_sp lines) @ (if cur = [] then [] else split_sp cur)"

text \<open>No two spaces in a row.\<close>

fun nodouble :: "string \<Rightarrow> bool" where
  "nodouble (a # b # cs) = (\<not> (a = CHR '' '' \<and> b = CHR '' '') \<and> nodouble (b # cs))"
| "nodouble _ = True"

section \<open>Properties\<close>

text \<open>
  C9. If the \<open>captions\<close> argument of the normalizer is not an array, the normalizer
  returns the empty list, whatever the target duration is.
\<close>

theorem normalize_not_array: "normalizeAndScaleCaptions NotAnArray audioMs = Inr []"
  by (simp add: normalizeAndScaleCaptions_def)

subsection \<open>Rounding\<close>

lemma Math_round_Ints [simp]: "Math_round x \<in> \<int>"
  by (simp add: Math_round_def)






lemma guard_301: "Math_ceil (xfadeDur * 1000) + 1 = 301"
  by (simp add: Math_ceil_def xfadeDur_def)

subsection \<open>The shared loop body\<close>







subsection \<open>The two passes\<close>





















subsection \<open>The adjustment\<close>








subsection \<open>The layout\<close>

lemma layout_length [simp]: "length (layout T cur s) = length s"
  by (induction s arbitrary: cur) (auto simp: Let_def)


lemma layout_Nil_iff [simp]: "layout T cur s = [] \<longleftrightarrow> s = []"
  by (cases s) (auto simp: Let_def)


lemma layout_last: "s \<noteq> [] \<Longrightarrow> end_ms (last (layout T cur s)) = T"
proof (induction s arbitrary: cur)
  case Nil
  then show ?case by simp
next
  case (Cons x xs)
  then show ?case by (cases xs) (auto simp: Let_def)
qed





lemma set_last_end_layout: "set_last_end T (layout T cur s) = layout T cur s"
proof (cases "s = []")
  case True
  then show ?thesis by (simp add: set_last_end_def)
next
  case False
  let ?out = "layout T cur s"
  have ne: "?out \<noteq> []" using False by simp
  have "?out ! (length ?out - 1) = last ?out" using ne by (simp add: last_conv_nth)
  moreover have "(last ?out)\<lparr>end_ms := end_ms (last ?out)\<rparr> = last ?out" by simp
  ultimately have "(?out ! (length ?out - 1))\<lparr>end_ms := T\<rparr> = ?out ! (length ?out - 1)"
    using layout_last [OF False, of T cur] by simp
  then show ?thesis by (simp add: set_last_end_def)
qed



lemma layout_unscaled_length [simp]: "length (layout_unscaled cur s) = length s"
  by (induction s arbitrary: cur) (auto simp: Let_def)



subsection \<open>Adjusting an adjusted list\<close>





subsection \<open>The kept entries\<close>

lemma last_dropWhile_ne: "dropWhile P xs \<noteq> [] \<Longrightarrow> last (dropWhile P xs) = last xs"
  by (metis last_appendR takeWhile_dropWhile_id)



subsection \<open>Scaling to a known target\<close>


lemma totalDur_ge: "of_nat (length items) \<le> totalDur items"
  unfolding totalDur_def
proof (induction items)
  case Nil
  then show ?case by simp
next
  case (Cons x xs)
  have "1 \<le> max 1 (Math_round (dur_ms x))" by simp
  then show ?case using Cons.IH by simp
qed

lemma totalDur_pos: "items \<noteq> [] \<Longrightarrow> 0 < totalDur items"
proof -
  assume "items \<noteq> []"
  then have "0 < length items" by simp
  then have "(0::rat) < of_nat (length items)" by simp
  then show ?thesis using totalDur_ge [of items] by linarith
qed

lemma scale_items_length [simp]: "length (scale_items m f items) = length items"
  by (simp add: scale_items_def)




lemma scale_to_unfold:
  assumes "items \<noteq> []"
  shows "scale_to T items =
           (case adjust T (minSegMs T (length items))
                   (scale_items (minSegMs T (length items)) (T / totalDur items) items) of
              Inl e \<Rightarrow> Inl e
            | Inr a \<Rightarrow> Inr (layout T 0 a))"
  using totalDur_pos [OF assms]
  by (simp add: scale_to_def Let_def set_last_end_layout split: sum.splits)



subsection \<open>The normalizer with a known target\<close>






subsection \<open>Normalizing twice\<close>







subsection \<open>The normalizer never raises\<close>







subsection \<open>The fallback duration\<close>




subsection \<open>The segment planner\<close>






subsection \<open>Slideshow and total duration\<close>








subsection \<open>Degenerate inputs\<close>






subsection \<open>Splitting and joining\<close>

lemma split_sp_not_Nil [simp]: "split_sp s \<noteq> []"
  by (induction s) (auto split: list.splits)

lemma split_sp_append:
  "split_sp (a @ CHR '' '' # b) = split_sp a @ split_sp b"
proof (induction a)
  case Nil
  then show ?case by simp
next
  case (Cons c a)
  then show ?case by (cases "split_sp a") (auto split: list.splits)
qed

lemma split_sp_word: "CHR '' '' \<notin> set w \<Longrightarrow> split_sp w = [w]"
  by (induction w) auto

lemma split_sp_chars: "\<forall>w \<in> set (split_sp s). set w \<subseteq> set s - {CHR '' ''}"
proof (induction s)
  case Nil
  then show ?case by simp
next
  case (Cons c s)
  show ?case
  proof (cases "c = CHR '' ''")
    case True
    then show ?thesis using Cons.IH by auto
  next
    case False
    obtain w ws where sp: "split_sp s = w # ws" by (cases "split_sp s") auto
    then show ?thesis using Cons.IH False by auto
  qed
qed

lemma join_Cons:
  "join sep (x # xs) = (if xs = [] then x else x @ sep @ join sep xs)"
  by (cases xs) simp_all

lemma split_sp_join:
  "ws \<noteq> [] \<Longrightarrow> \<forall>w \<in> set ws. CHR '' '' \<notin> set w \<Longrightarrow> split_sp (join '' '' ws) = ws"
proof (induction ws)
  case Nil
  then show ?case by simp
next
  case (Cons x xs)
  show ?case
  proof (cases "xs = []")
    case True
    then show ?thesis using Cons.prems by (simp add: split_sp_word)
  next
    case False
    have "split_sp (x @ CHR '' '' # join '' '' xs) = split_sp x @ split_sp (join '' '' xs)"
      by (rule split_sp_append)
    then show ?thesis using False Cons by (simp add: join_Cons split_sp_word)
  qed
qed

lemma split_sp_join_lines:
  "xs \<noteq> [] \<Longrightarrow> split_sp (join '' '' xs) = concat (map split_sp xs)"
proof (induction xs)
  case Nil
  then show ?case by simp
next
  case (Cons x xs)
  show ?case
  proof (cases "xs = []")
    case True
    then show ?thesis by simp
  next
    case False
    have "split_sp (x @ CHR '' '' # join '' '' xs) = split_sp x @ split_sp (join '' '' xs)"
      by (rule split_sp_append)
    then show ?thesis using False Cons by (simp add: join_Cons)
  qed
qed

subsection \<open>The wrapper keeps a prefix of the words\<close>

lemma is_ws_space [simp]: "is_ws (CHR '' '')"
  by (simp add: is_ws_def)

lemma is_word_no_space: "is_word w \<Longrightarrow> CHR '' '' \<notin> set w"
  by (auto simp: is_word_def)

lemma split_sp_add_word:
  "is_word w \<Longrightarrow> split_sp (cur @ '' '' @ w) = split_sp cur @ [w]"
  using split_sp_append [of cur w] by (simp add: split_sp_word is_word_no_space)

lemma held_push: "held (if cur \<noteq> [] then lines @ [cur] else lines) [] = held lines cur"
  by (simp add: held_def)

lemma held_word:
  "is_word w \<Longrightarrow> held lines w = concat (map split_sp lines) @ [w]"
  by (simp add: held_def is_word_def split_sp_word is_word_no_space)

lemma held_cand:
  "is_word w \<Longrightarrow> held lines (if cur \<noteq> [] then cur @ '' '' @ w else w) = held lines cur @ [w]"
proof (cases "cur = []")
  case True
  assume "is_word w"
  then show ?thesis using True by (simp add: held_word) (simp add: held_def)
next
  case False
  assume w: "is_word w"
  have "split_sp (cur @ '' '' @ w) = split_sp cur @ [w]" using w by (rule split_sp_add_word)
  then show ?thesis using False by (simp add: held_def)
qed

lemma wrap_loop_held:
  assumes "\<forall>w \<in> set ws. is_word w" and "wrap_loop c l ws lines cur = (lines', cur')"
  shows "\<exists>k \<le> length ws. held lines' cur' = held lines cur @ take k ws"
  using assms
proof (induction ws arbitrary: lines cur)
  case Nil
  then show ?case by simp
next
  case (Cons w ws)
  have w: "is_word w" and ws: "\<forall>w \<in> set ws. is_word w" using Cons.prems(1) by simp_all
  let ?cand = "if cur \<noteq> [] then cur @ '' '' @ w else w"
  let ?lines1 = "if cur \<noteq> [] then lines @ [cur] else lines"
  show ?case
  proof (cases "int (length ?cand) \<le> c")
    case True
    then have "wrap_loop c l ws lines ?cand = (lines', cur')"
      using Cons.prems(2) by (simp add: Let_def)
    from Cons.IH [OF ws this] obtain k where "k \<le> length ws"
      and "held lines' cur' = held lines ?cand @ take k ws" by blast
    then have "Suc k \<le> length (w # ws) \<and> held lines' cur' = held lines cur @ take (Suc k) (w # ws)"
      using held_cand [OF w, of lines cur] by simp
    then show ?thesis by blast
  next
    case False
    have h1: "held ?lines1 w = held lines cur @ [w]"
      using held_word [OF w, of ?lines1] held_push [of cur lines] by (simp add: held_def)
    show ?thesis
    proof (cases "int (length ?lines1) \<ge> l - 1")
      case True
      then have "(lines', cur') = (?lines1, w)"
        using Cons.prems(2) False by (simp add: Let_def)
      then have "Suc 0 \<le> length (w # ws) \<and> held lines' cur' = held lines cur @ take (Suc 0) (w # ws)"
        using h1 by simp
      then show ?thesis by blast
    next
      case b: False
      then have "wrap_loop c l ws ?lines1 w = (lines', cur')"
        using Cons.prems(2) False by (simp add: Let_def)
      from Cons.IH [OF ws this] obtain k where "k \<le> length ws"
        and "held lines' cur' = held ?lines1 w @ take k ws" by blast
      then have "Suc k \<le> length (w # ws) \<and> held lines' cur' = held lines cur @ take (Suc k) (w # ws)"
        using h1 by simp
      then show ?thesis by blast
    qed
  qed
qed

lemma wrap_loop_cur:
  assumes "\<forall>w \<in> set ws. is_word w" and "wrap_loop c l ws lines cur = (lines', cur')"
    and "ws \<noteq> [] \<or> cur \<noteq> []"
  shows "cur' \<noteq> []"
  using assms
proof (induction ws arbitrary: lines cur)
  case Nil
  then show ?case by simp
next
  case (Cons w ws)
  have w: "w \<noteq> []" using Cons.prems(1) by (simp add: is_word_def)
  have ws: "\<forall>w \<in> set ws. is_word w" using Cons.prems(1) by simp
  let ?cand = "if cur \<noteq> [] then cur @ '' '' @ w else w"
  let ?lines1 = "if cur \<noteq> [] then lines @ [cur] else lines"
  have cne: "?cand \<noteq> []" using w by simp
  show ?case
  proof (cases "int (length ?cand) \<le> c")
    case True
    then have "wrap_loop c l ws lines ?cand = (lines', cur')"
      using Cons.prems(2) by (simp add: Let_def)
    from Cons.IH [OF ws this] cne show ?thesis by blast
  next
    case False
    show ?thesis
    proof (cases "int (length ?lines1) \<ge> l - 1")
      case True
      then have "(lines', cur') = (?lines1, w)"
        using Cons.prems(2) False by (simp add: Let_def)
      then show ?thesis using w by simp
    next
      case b: False
      then have "wrap_loop c l ws ?lines1 w = (lines', cur')"
        using Cons.prems(2) False by (simp add: Let_def)
      from Cons.IH [OF ws this] w show ?thesis by blast
    qed
  qed
qed

lemma fill_last_stops:
  assumes "\<forall>w \<in> set rest. is_word w"
  shows "\<exists>j \<le> length rest. split_sp (fill_last c cur rest) = split_sp cur @ take j rest
           \<and> (j < length rest \<longrightarrow> c < int (length (fill_last c cur rest @ '' '' @ rest ! j)))"
  using assms
proof (induction rest arbitrary: cur)
  case Nil
  then show ?case by simp
next
  case (Cons w rest)
  have w: "is_word w" and r: "\<forall>w \<in> set rest. is_word w" using Cons.prems by simp_all
  show ?case
  proof (cases "int (length (cur @ '' '' @ w)) \<le> c")
    case True
    let ?cand = "cur @ '' '' @ w"
    from Cons.IH [OF r, of ?cand] obtain j where j: "j \<le> length rest"
      and s: "split_sp (fill_last c ?cand rest) = split_sp ?cand @ take j rest"
      and m: "j < length rest \<longrightarrow> c < int (length (fill_last c ?cand rest @ '' '' @ rest ! j))"
      by blast
    have f: "fill_last c cur (w # rest) = fill_last c ?cand rest" using True by (simp add: Let_def)
    have "Suc j \<le> length (w # rest)
        \<and> split_sp (fill_last c cur (w # rest)) = split_sp cur @ take (Suc j) (w # rest)
        \<and> (Suc j < length (w # rest) \<longrightarrow>
              c < int (length (fill_last c cur (w # rest) @ '' '' @ (w # rest) ! Suc j)))"
      unfolding f using j s m split_sp_add_word [OF w, of cur] by simp
    then show ?thesis by blast
  next
    case False
    then have "0 \<le> length (w # rest)
        \<and> split_sp (fill_last c cur (w # rest)) = split_sp cur @ take 0 (w # rest)
        \<and> (0 < length (w # rest) \<longrightarrow>
              c < int (length (fill_last c cur (w # rest) @ '' '' @ (w # rest) ! 0)))"
      by (simp add: Let_def)
    then show ?thesis by blast
  qed
qed

text \<open>When the loop is left with as many lines as allowed, it has just closed the only line.\<close>

lemma wrap_loop_full:
  assumes "1 \<le> l" and "lines = [] \<or> int (length lines) < l - 1"
    and "\<forall>w \<in> set ws. is_word w" and "wrap_loop c l ws lines cur = (lines', cur')"
    and "l \<le> int (length lines')"
  shows "\<exists>x. lines' = [x] \<and> x \<noteq> [] \<and> is_word cur' \<and> c < int (length (x @ '' '' @ cur'))"
  using assms(2-5)
proof (induction ws arbitrary: lines cur)
  case Nil
  then show ?case using assms(1) by auto
next
  case (Cons w ws)
  have w: "is_word w" and ws: "\<forall>w \<in> set ws. is_word w" using Cons.prems(2) by simp_all
  let ?cand = "if cur \<noteq> [] then cur @ '' '' @ w else w"
  let ?lines1 = "if cur \<noteq> [] then lines @ [cur] else lines"
  show ?case
  proof (cases "int (length ?cand) \<le> c")
    case True
    then have "wrap_loop c l ws lines ?cand = (lines', cur')"
      using Cons.prems(3) by (simp add: Let_def)
    from Cons.IH [OF Cons.prems(1) ws this Cons.prems(4)] show ?thesis .
  next
    case False
    show ?thesis
    proof (cases "int (length ?lines1) \<ge> l - 1")
      case True
      then have res: "lines' = ?lines1" "cur' = w"
        using Cons.prems(3) False by (simp_all add: Let_def)
      have big: "l \<le> int (length ?lines1)" using Cons.prems(4) res by simp
      have c: "cur \<noteq> []" using big Cons.prems(1) assms(1) by (auto split: if_splits)
      have "lines = []" using big Cons.prems(1) c by (auto split: if_splits)
      then have "lines' = [cur]" using res c by simp
      moreover have "c < int (length (cur @ '' '' @ w))" using False c by simp
      ultimately show ?thesis using c w res by simp
    next
      case b: False
      then have p: "wrap_loop c l ws ?lines1 w = (lines', cur')"
        using Cons.prems(3) False by (simp add: Let_def)
      have "?lines1 = [] \<or> int (length ?lines1) < l - 1" using b by simp
      from Cons.IH [OF this ws p Cons.prems(4)] show ?thesis .
    qed
  qed
qed

lemma count_nonempty_all: "[] \<notin> set xs \<Longrightarrow> count_nonempty xs = length xs"
  by (induction xs) (auto simp: count_nonempty_def)

lemma trim_id:
  assumes "s \<noteq> []" and "\<not> is_ws (hd s)" and "\<not> is_ws (last s)"
  shows "trim s = s"
proof -
  have 1: "dropWhile is_ws s = s" using assms(1,2) by (simp add: dropWhile_eq_self_iff)
  have "hd (rev s) = last s" using assms(1) by (simp add: hd_rev)
  then have 2: "dropWhile is_ws (rev s) = rev s" using assms(3) by (simp add: dropWhile_eq_self_iff)
  show ?thesis unfolding trim_def 1 2 by simp
qed

lemma join_words_ends:
  assumes "R \<noteq> []" and "\<forall>w \<in> set R. is_word w"
  shows "join '' '' R \<noteq> [] \<and> \<not> is_ws (hd (join '' '' R)) \<and> \<not> is_ws (last (join '' '' R))"
  using assms
proof (induction R)
  case Nil
  then show ?case by simp
next
  case (Cons x xs)
  have x: "x \<noteq> []" "\<not> is_ws (hd x)" "\<not> is_ws (last x)"
    using Cons.prems(2) by (auto simp: is_word_def)
  show ?case
  proof (cases "xs = []")
    case True
    then show ?thesis using x by simp
  next
    case False
    then have "join '' '' xs \<noteq> [] \<and> \<not> is_ws (last (join '' '' xs))"
      using Cons.IH Cons.prems(2) by simp
    then show ?thesis using False x by (simp add: join_Cons)
  qed
qed

lemma trim_join_words:
  "\<forall>w \<in> set R. is_word w \<Longrightarrow> trim (join '' '' R) = join '' '' R"
proof (cases "R = []")
  case True
  then show ?thesis by (simp add: trim_def)
next
  case False
  assume "\<forall>w \<in> set R. is_word w"
  then show ?thesis using join_words_ends [OF False] by (simp add: trim_id)
qed

lemma wrap_lines_greedy:
  assumes W: "\<forall>w \<in> set (split_sp t). is_word w" and l1: "1 \<le> l"
  shows "\<exists>k. 1 \<le> k \<and> wrap_lines t c l \<noteq> []
           \<and> concat (map split_sp (wrap_lines t c l)) = take k (split_sp t)
           \<and> (k < length (split_sp t) \<longrightarrow>
                 c < int (length (last (wrap_lines t c l) @ '' '' @ split_sp t ! k)))"
proof -
  let ?W = "split_sp t"
  obtain lines cur where loop: "wrap_loop c l ?W [] [] = (lines, cur)"
    by (cases "wrap_loop c l ?W [] []")
  obtain k where k: "k \<le> length ?W" and h: "held lines cur = take k ?W"
    using wrap_loop_held [OF W loop] by (auto simp: held_def)
  have cur: "cur \<noteq> []" using wrap_loop_cur [OF W loop] by simp
  have hw: "\<forall>w \<in> set (held lines cur). is_word w"
    unfolding h using W by (auto dest: in_set_takeD)
  have lw: "concat (map split_sp lines) @ split_sp cur = take k ?W"
    using h cur by (simp add: held_def)
  have ne1: "[] \<notin> set (concat (map split_sp lines))" and ne2: "[] \<notin> set (split_sp cur)"
    using hw cur unfolding held_def by (auto simp: is_word_def)
  show ?thesis
  proof (cases "int (length lines) < l")
    case True
    have u1: "count_nonempty (split_sp (join '' '' lines)) = length (concat (map split_sp lines))"
    proof (cases "lines = []")
      case True
      then show ?thesis by (simp add: count_nonempty_def)
    next
      case False
      then show ?thesis using ne1 by (simp add: split_sp_join_lines count_nonempty_all)
    qed
    have u2: "count_nonempty (split_sp cur) = length (split_sp cur)"
      using ne2 by (rule count_nonempty_all)
    have "length (concat (map split_sp lines)) + length (split_sp cur) = length (take k ?W)"
      using lw by (metis length_append)
    then have used: "count_nonempty (split_sp (join '' '' lines)) + count_nonempty (split_sp cur) = k"
      using u1 u2 k by simp
    let ?R = "drop k ?W"
    have R: "\<forall>w \<in> set ?R. is_word w" using W by (auto dest: in_set_dropD)
    have tr: "trim (join '' '' ?R) = join '' '' ?R" using R by (rule trim_join_words)
    let ?cur' = "if join '' '' ?R \<noteq> [] then fill_last c cur (split_sp (join '' '' ?R)) else cur"
    have res: "wrap_lines t c l = lines @ [?cur']"
      using loop cur True used tr by (simp add: wrap_lines_def Let_def)
    have "\<exists>j \<le> length ?R. split_sp ?cur' = split_sp cur @ take j ?R
            \<and> (j < length ?R \<longrightarrow> c < int (length (?cur' @ '' '' @ ?R ! j)))"
    proof (cases "?R = []")
      case True
      then have "0 \<le> length ?R \<and> split_sp ?cur' = split_sp cur @ take 0 ?R
            \<and> (0 < length ?R \<longrightarrow> c < int (length (?cur' @ '' '' @ ?R ! 0)))" by simp
      then show ?thesis by blast
    next
      case False
      have sj: "split_sp (join '' '' ?R) = ?R"
        using split_sp_join [OF False] R by (simp add: is_word_no_space)
      have "join '' '' ?R \<noteq> []" using join_words_ends [OF False R] by simp
      then have "?cur' = fill_last c cur ?R" using sj by simp
      then show ?thesis using fill_last_stops [OF R, of c cur] by simp
    qed
    then obtain j where jl: "j \<le> length ?R" and j: "split_sp ?cur' = split_sp cur @ take j ?R"
      and stop: "j < length ?R \<longrightarrow> c < int (length (?cur' @ '' '' @ ?R ! j))" by blast
    have "concat (map split_sp (wrap_lines t c l)) = take k ?W @ take j (drop k ?W)"
      unfolding res using j lw by simp
    then have p: "concat (map split_sp (wrap_lines t c l)) = take (k + j) ?W"
      by (simp add: take_add)
    have "take k ?W \<noteq> []" using lw by (metis append_is_Nil_conv split_sp_not_Nil)
    then have "1 \<le> k" by (cases k) auto
    then have k1: "1 \<le> k + j" by simp
    have g: "k + j < length ?W \<longrightarrow> c < int (length (last (wrap_lines t c l) @ '' '' @ ?W ! (k + j)))"
    proof
      assume lt: "k + j < length ?W"
      then have "j < length ?R" by simp
      then have "c < int (length (?cur' @ '' '' @ ?R ! j))" using stop by blast
      moreover have "?R ! j = ?W ! (k + j)" using lt by simp
      moreover have "last (wrap_lines t c l) = ?cur'" unfolding res by simp
      ultimately show "c < int (length (last (wrap_lines t c l) @ '' '' @ ?W ! (k + j)))" by simp
    qed
    have "wrap_lines t c l \<noteq> []" unfolding res by simp
    then show ?thesis using p k1 g by blast
  next
    case False
    then have res: "wrap_lines t c l = lines" using loop by (simp add: wrap_lines_def Let_def)
    have full: "l \<le> int (length lines)" using False by simp
    obtain x where x: "lines = [x]" and xne: "x \<noteq> []" and cw: "is_word cur"
      and big: "c < int (length (x @ '' '' @ cur))"
      using wrap_loop_full [OF l1 _ W loop full] by auto
    let ?k' = "length (split_sp x)"
    have sc: "split_sp cur = [cur]" using cw by (simp add: split_sp_word is_word_no_space)
    have lw': "split_sp x @ [cur] = take k ?W" using lw x sc by simp
    have "length (split_sp x @ [cur]) = length (take k ?W)" using lw' by simp
    then have len: "?k' + 1 = k" using k by simp
    have "split_sp x = take ?k' (take k ?W)" using lw' by (simp add: append_eq_conv_conj)
    then have "split_sp x = take ?k' ?W" using len by (simp add: min_def)
    then have p: "concat (map split_sp lines) = take ?k' ?W" using x by simp
    have k1: "1 \<le> ?k'" by (cases "split_sp x") auto
    have n: "(take k ?W) ! ?k' = cur" using lw' by (metis nth_append_length)
    have klt: "?k' < k" using len by simp
    then have "?W ! ?k' = cur" using n by simp
    then have g: "c < int (length (last lines @ '' '' @ ?W ! ?k'))" using big x by simp
    show ?thesis unfolding res using p k1 g x by (intro exI [of _ ?k']) simp
  qed
qed

subsection \<open>The words of a cleaned text\<close>

lemma nodouble_Cons:
  "nodouble (a # r) \<longleftrightarrow> (r = [] \<or> \<not> (a = CHR '' '' \<and> hd r = CHR '' '')) \<and> nodouble r"
  by (cases r) auto

lemma nodouble_append: "nodouble (xs @ ys) \<Longrightarrow> nodouble xs \<and> nodouble ys"
proof (induction xs)
  case Nil
  then show ?case by simp
next
  case (Cons x xs)
  then show ?case by (cases xs; cases ys) (auto simp: nodouble_Cons)
qed

lemma collapse_run_ws: "\<forall>c \<in> set (collapse_run b s). is_ws c \<longrightarrow> c = CHR '' ''"
  by (induction s arbitrary: b) auto

lemma collapse_run_nodouble:
  "nodouble (collapse_run b s)
   \<and> (b \<longrightarrow> collapse_run b s = [] \<or> hd (collapse_run b s) \<noteq> CHR '' '')"
proof (induction s arbitrary: b)
  case Nil
  then show ?case by simp
next
  case (Cons c cs)
  show ?case
  proof (cases "is_ws c")
    case True
    then show ?thesis using Cons.IH [of True] by (auto simp: nodouble_Cons)
  next
    case False
    then have "c \<noteq> CHR '' ''" by auto
    then show ?thesis using False Cons.IH [of False] by (auto simp: nodouble_Cons)
  qed
qed

lemma trim_nodouble: "nodouble s \<Longrightarrow> nodouble (trim s)"
proof -
  assume n: "nodouble s"
  let ?u = "dropWhile is_ws s"
  have "s = takeWhile is_ws s @ ?u" by simp
  then have u: "nodouble ?u" using n nodouble_append by metis
  have "rev ?u = takeWhile is_ws (rev ?u) @ dropWhile is_ws (rev ?u)" by simp
  then have "?u = rev (dropWhile is_ws (rev ?u)) @ rev (takeWhile is_ws (rev ?u))"
    by (metis rev_append rev_rev_ident)
  then have "nodouble (rev (dropWhile is_ws (rev ?u)))" using u nodouble_append by metis
  then show ?thesis by (simp add: trim_def)
qed

lemma set_trim: "set (trim s) \<subseteq> set s"
  unfolding trim_def by (auto dest!: set_dropWhileD)

lemma trim_ends:
  assumes "trim s \<noteq> []"
  shows "\<not> is_ws (hd (trim s)) \<and> \<not> is_ws (last (trim s))"
proof -
  let ?u = "dropWhile is_ws s"
  let ?v = "dropWhile is_ws (rev ?u)"
  have t: "trim s = rev ?v" by (simp add: trim_def)
  have vne: "?v \<noteq> []" using assms t by simp
  have une: "?u \<noteq> []"
  proof
    assume e: "?u = []"
    have "?v = []" unfolding e by simp
    then show False using vne by simp
  qed
  have "last ?v = last (rev ?u)" using vne by (rule last_dropWhile_ne)
  then have "last ?v = hd ?u" using une by (simp add: last_rev)
  moreover have "\<not> is_ws (hd ?u)" using une by (rule hd_dropWhile)
  ultimately have 1: "\<not> is_ws (hd (rev ?v))" using vne by (simp add: hd_rev)
  have "\<not> is_ws (hd ?v)" using vne by (rule hd_dropWhile)
  then have 2: "\<not> is_ws (last (rev ?v))" using vne by (simp add: last_rev)
  show ?thesis unfolding t using 1 2 by simp
qed

lemma split_sp_no_empty:
  "nodouble s \<Longrightarrow> s \<noteq> [] \<Longrightarrow> last s \<noteq> CHR '' '' \<Longrightarrow>
   (hd s \<noteq> CHR '' '' \<longrightarrow> [] \<notin> set (split_sp s))
   \<and> (hd s = CHR '' '' \<longrightarrow> [] \<notin> set (tl (split_sp s)))"
proof (induction s)
  case Nil
  then show ?case by simp
next
  case (Cons c cs)
  show ?case
  proof (cases "cs = []")
    case True
    then show ?thesis using Cons.prems by simp
  next
    case False
    have n: "nodouble cs" and l: "last cs \<noteq> CHR '' ''"
      using Cons.prems False by (auto simp: nodouble_Cons)
    note IH = Cons.IH [OF n False l]
    show ?thesis
    proof (cases "c = CHR '' ''")
      case True
      then have "hd cs \<noteq> CHR '' ''" using Cons.prems(1) False by (simp add: nodouble_Cons)
      then show ?thesis using True IH by simp
    next
      case c: False
      obtain w ws where sp: "split_sp cs = w # ws" by (cases "split_sp cs") auto
      have "[] \<notin> set ws"
      proof (cases "hd cs = CHR '' ''")
        case True
        then show ?thesis using IH sp by simp
      next
        case False
        then show ?thesis using IH sp by simp
      qed
      then show ?thesis using c sp by simp
    qed
  qed
qed

lemma cleaned_words:
  assumes "trim (collapse_ws x) \<noteq> []"
  shows "\<forall>w \<in> set (split_sp (trim (collapse_ws x))). is_word w"
proof
  let ?t = "trim (collapse_ws x)"
  fix w assume w: "w \<in> set (split_sp ?t)"
  have nd: "nodouble ?t" using collapse_run_nodouble [of False x]
    by (simp add: collapse_ws_def trim_nodouble)
  have ends: "\<not> is_ws (hd ?t) \<and> \<not> is_ws (last ?t)" using assms by (rule trim_ends)
  then have "hd ?t \<noteq> CHR '' ''" and "last ?t \<noteq> CHR '' ''" by auto
  then have "[] \<notin> set (split_sp ?t)" using split_sp_no_empty [OF nd assms] by simp
  then have 1: "w \<noteq> []" using w by auto
  have sub: "set w \<subseteq> set ?t - {CHR '' ''}" using split_sp_chars w by blast
  have "\<forall>c \<in> set w. \<not> is_ws c"
  proof
    fix c assume c: "c \<in> set w"
    then have "c \<in> set (collapse_ws x)" and "c \<noteq> CHR '' ''" using sub set_trim by auto
    then show "\<not> is_ws c" using collapse_run_ws [of False x] by (auto simp: collapse_ws_def)
  qed
  then show "is_word w" using 1 by (simp add: is_word_def)
qed

text \<open>
  C2 (as amended). For every input string whose cleaned form (white space collapsed,
  trimmed) is not empty, every character budget and every maximum line count of at
  least 1, the wrapper returns at least one line, and the words of the returned lines
  are the first \<open>k\<close> words of the cleaned input for some \<open>k \<ge> 1\<close>, in their order and
  unchanged. When words are missing, the first missing word did not fit the budget of
  the last returned line.
\<close>

theorem wrapByChars_keeps_prefix:
  assumes "1 \<le> maxLines" and "trim (collapse_ws x) \<noteq> []"
  shows "wrapByChars x maxCharsPerLine maxLines
           = join line_break (wrap_lines (trim (collapse_ws x)) maxCharsPerLine maxLines)
         \<and> wrap_lines (trim (collapse_ws x)) maxCharsPerLine maxLines \<noteq> []
         \<and> (\<exists>k. 1 \<le> k
              \<and> concat (map split_sp (wrap_lines (trim (collapse_ws x)) maxCharsPerLine maxLines))
                  = take k (split_sp (trim (collapse_ws x)))
              \<and> (k < length (split_sp (trim (collapse_ws x))) \<longrightarrow>
                    maxCharsPerLine
                      < int (length (last (wrap_lines (trim (collapse_ws x)) maxCharsPerLine maxLines)
                                       @ '' '' @ split_sp (trim (collapse_ws x)) ! k))))"
proof -
  let ?t = "trim (collapse_ws x)"
  have W: "\<forall>w \<in> set (split_sp ?t). is_word w" using assms(2) by (rule cleaned_words)
  obtain k where k1: "1 \<le> k" and ne: "wrap_lines ?t maxCharsPerLine maxLines \<noteq> []"
    and k: "concat (map split_sp (wrap_lines ?t maxCharsPerLine maxLines)) = take k (split_sp ?t)"
    and g: "k < length (split_sp ?t) \<longrightarrow>
              maxCharsPerLine
                < int (length (last (wrap_lines ?t maxCharsPerLine maxLines) @ '' '' @ split_sp ?t ! k))"
    using wrap_lines_greedy [OF W assms(1), of maxCharsPerLine] by blast
  have "wrapByChars x maxCharsPerLine maxLines
           = join line_break (wrap_lines ?t maxCharsPerLine maxLines)"
    using assms(2) ne by (simp add: wrapByChars_def Let_def)
  then show ?thesis using ne k k1 g by blast
qed

text \<open>
  The theorem at a text of three words that fits two lines of 12, and at a text of four
  words of which two lines of 3 take two.
\<close>

theorem wrapByChars_keeps_prefix_witness:
  "(1::int) \<le> 6 \<and> trim (collapse_ws ''  hello big   world '') \<noteq> []
   \<and> trim (collapse_ws ''  hello big   world '') = ''hello big world''
   \<and> wrapByChars ''  hello big   world '' 12 6 = join line_break [''hello big'', ''world'']
   \<and> wrap_lines ''hello big world'' 12 6 = [''hello big'', ''world'']
   \<and> (\<exists>k. 1 \<le> k \<and> concat (map split_sp [''hello big'', ''world''])
                      = take k (split_sp ''hello big world''))
   \<and> (1::int) \<le> 2 \<and> trim (collapse_ws ''aaa bbb ccc ddd'') = ''aaa bbb ccc ddd''
   \<and> wrap_lines ''aaa bbb ccc ddd'' 3 2 = [''aaa'', ''bbb'']
   \<and> (\<exists>k. 1 \<le> k \<and> concat (map split_sp [''aaa'', ''bbb''])
                      = take k (split_sp ''aaa bbb ccc ddd'')
            \<and> k < length (split_sp ''aaa bbb ccc ddd'')
            \<and> 3 < int (length (''bbb'' @ '' '' @ split_sp ''aaa bbb ccc ddd'' ! k)))"
proof -
  have h1: "(1::int) \<le> 6" by simp
  have t: "trim (collapse_ws ''  hello big   world '') = ''hello big world''" by code_simp
  have h2: "trim (collapse_ws ''  hello big   world '') \<noteq> []" unfolding t by simp
  have l: "wrap_lines ''hello big world'' 12 6 = [''hello big'', ''world'']" by code_simp
  have a: "wrapByChars ''  hello big   world '' 12 6 = join line_break [''hello big'', ''world'']
     \<and> (\<exists>k. 1 \<le> k \<and> concat (map split_sp [''hello big'', ''world''])
                      = take k (split_sp ''hello big world''))"
    using wrapByChars_keeps_prefix [OF h1 h2, of 12] unfolding t l by blast
  have g1: "(1::int) \<le> 2" by simp
  have t': "trim (collapse_ws ''aaa bbb ccc ddd'') = ''aaa bbb ccc ddd''" by code_simp
  have g2: "trim (collapse_ws ''aaa bbb ccc ddd'') \<noteq> []" unfolding t' by simp
  have l': "wrap_lines ''aaa bbb ccc ddd'' 3 2 = [''aaa'', ''bbb'']" by code_simp
  have w: "split_sp ''aaa bbb ccc ddd'' = [''aaa'', ''bbb'', ''ccc'', ''ddd'']" by code_simp
  obtain k where k1: "1 \<le> k"
    and k: "concat (map split_sp [''aaa'', ''bbb'']) = take k (split_sp ''aaa bbb ccc ddd'')"
    and g: "k < length (split_sp ''aaa bbb ccc ddd'') \<longrightarrow>
              3 < int (length (last [''aaa'', ''bbb''] @ '' '' @ split_sp ''aaa bbb ccc ddd'' ! k))"
    using wrapByChars_keeps_prefix [OF g1 g2, of 3] unfolding t' l' by blast
  have "length (concat (map split_sp [''aaa'', ''bbb''])) = 2" by code_simp
  then have "length (take k (split_sp ''aaa bbb ccc ddd'')) = 2" by (simp only: k)
  then have "min (length (split_sp ''aaa bbb ccc ddd'')) k = 2" by (simp only: length_take)
  then have "min 4 k = 2" unfolding w by simp
  then have "k = 2" by (simp add: min_def split: if_splits)
  then have klt: "k < length (split_sp ''aaa bbb ccc ddd'')" unfolding w by simp
  then have "3 < int (length (''bbb'' @ '' '' @ split_sp ''aaa bbb ccc ddd'' ! k))"
    using g by simp
  then have b: "\<exists>k. 1 \<le> k \<and> concat (map split_sp [''aaa'', ''bbb''])
                      = take k (split_sp ''aaa bbb ccc ddd'')
            \<and> k < length (split_sp ''aaa bbb ccc ddd'')
            \<and> 3 < int (length (''bbb'' @ '' '' @ split_sp ''aaa bbb ccc ddd'' ! k))"
    using k1 k klt by blast
  show ?thesis using h1 h2 t l a g1 t' l' b by blast
qed

text \<open>
  C2 as stated fails: with 3 characters per line and 2 lines, the four words
  \<open>aaa bbb ccc ddd\<close> come back as the two lines \<open>aaa\<close> and \<open>bbb\<close>; the words \<open>ccc\<close>
  and \<open>ddd\<close> are lost.
\<close>

theorem wrapByChars_drops_words:
  "wrapByChars ''aaa bbb ccc ddd'' 3 2 = ''aaa'' @ line_break @ ''bbb''
   \<and> split_sp (trim (collapse_ws ''aaa bbb ccc ddd'')) = [''aaa'', ''bbb'', ''ccc'', ''ddd'']
   \<and> wrap_lines ''aaa bbb ccc ddd'' 3 2 = [''aaa'', ''bbb'']"
  by code_simp

subsection \<open>The minimum segment length\<close>

lemma floor_lt_600: "(of_int \<lfloor>x\<rfloor> < (600::rat)) = (x < 600)"
proof -
  have "(\<lfloor>x\<rfloor> < 600) = (x < of_int 600)" by (rule floor_less_iff)
  moreover have "(of_int \<lfloor>x\<rfloor> < (600::rat)) = (\<lfloor>x\<rfloor> < 600)"
    by (metis of_int_less_iff of_int_numeral)
  ultimately show ?thesis by simp
qed

lemma floor_le_0: "(of_int \<lfloor>x\<rfloor> \<le> (0::rat)) = (x < 1)"
proof -
  have "(\<lfloor>x\<rfloor> < 1) = (x < of_int 1)" by (rule floor_less_iff)
  then show ?thesis by simp
qed

text \<open>
  C4. For \<open>N \<ge> 1\<close> kept entries and a known target \<open>T > 0\<close>, the minimum segment length
  the code computes (from \<open>floor(T / N)\<close>) is the one the specification describes (from
  \<open>T / N\<close>): 600 by default, 80 if \<open>T / N \<le> 0\<close>, and \<open>max(80, floor(T / N))\<close> if
  \<open>600 > T / N\<close>. It is the bound the scaling of \<open>N\<close> kept entries to \<open>T\<close> uses, both
  when the durations are scaled and when they are adjusted.
\<close>

theorem minSegMs_refines_spec:
  assumes "0 < T" and "1 \<le> N"
  shows "minSegMs T N = minSegMs_spec T N
         \<and> (\<forall>items. length items = N \<longrightarrow>
               scale_to T items =
                 (case adjust T (minSegMs_spec T N)
                         (scale_items (minSegMs_spec T N) (T / totalDur items) items) of
                    Inl e \<Rightarrow> Inl e
                  | Inr a \<Rightarrow> Inr (layout T 0 a)))"
proof -
  have pos: "0 < T / of_nat N" using assms by simp
  have eq: "minSegMs T N = minSegMs_spec T N"
  proof (cases "T / of_nat N < 1")
    case True
    then have "\<lfloor>T / of_nat N\<rfloor> = 0" using pos by (simp add: floor_eq_iff)
    then show ?thesis using True pos
      by (simp add: minSegMs_def minSegMs_spec_def Math_floor_def Let_def)
  next
    case False
    then show ?thesis using pos
      by (simp add: minSegMs_def minSegMs_spec_def Math_floor_def Let_def floor_lt_600 floor_le_0)
  qed
  have "\<forall>items. length items = N \<longrightarrow>
               scale_to T items =
                 (case adjust T (minSegMs_spec T N)
                         (scale_items (minSegMs_spec T N) (T / totalDur items) items) of
                    Inl e \<Rightarrow> Inl e
                  | Inr a \<Rightarrow> Inr (layout T 0 a))"
  proof (intro allI impI)
    fix items :: "item list" assume l: "length items = N"
    then have "items \<noteq> []" using assms(2) by auto
    then show "scale_to T items =
                 (case adjust T (minSegMs_spec T N)
                         (scale_items (minSegMs_spec T N) (T / totalDur items) items) of
                    Inl e \<Rightarrow> Inl e
                  | Inr a \<Rightarrow> Inr (layout T 0 a))"
      using scale_to_unfold [of items T] l eq by simp
  qed
  then show ?thesis using eq by blast
qed

text \<open>The theorem at two entries of 100 ms and a target of one second: the bound is 500 ms.\<close>

theorem minSegMs_refines_spec_witness:
  "(0::rat) < 1000 \<and> (1::nat) \<le> 2 \<and> minSegMs 1000 2 = 500 \<and> minSegMs_spec 1000 2 = 500
   \<and> length [\<lparr>dur_ms = 100, item_text = ''a''\<rparr>, \<lparr>dur_ms = 100, item_text = ''b''\<rparr>] = 2
   \<and> scale_to 1000 [\<lparr>dur_ms = 100, item_text = ''a''\<rparr>, \<lparr>dur_ms = 100, item_text = ''b''\<rparr>]
       = (case adjust 1000 500
                 (scale_items 500 (1000 / totalDur [\<lparr>dur_ms = 100, item_text = ''a''\<rparr>,
                                                     \<lparr>dur_ms = 100, item_text = ''b''\<rparr>])
                    [\<lparr>dur_ms = 100, item_text = ''a''\<rparr>, \<lparr>dur_ms = 100, item_text = ''b''\<rparr>]) of
            Inl e \<Rightarrow> Inl e
          | Inr a \<Rightarrow> Inr (layout 1000 0 a))
   \<and> scale_to 1000 [\<lparr>dur_ms = 100, item_text = ''a''\<rparr>, \<lparr>dur_ms = 100, item_text = ''b''\<rparr>]
       = Inr [\<lparr>start_ms = 0, end_ms = 500, caption_text = ''a''\<rparr>,
              \<lparr>start_ms = 500, end_ms = 1000, caption_text = ''b''\<rparr>]"
proof -
  let ?items = "[\<lparr>dur_ms = 100, item_text = ''a''\<rparr>, \<lparr>dur_ms = 100, item_text = ''b''\<rparr>]"
  have h1: "(0::rat) < 1000" by simp
  have h2: "(1::nat) \<le> 2" by simp
  have sp: "minSegMs_spec 1000 2 = 500" by code_simp
  have l: "length ?items = 2" by simp
  have ev: "scale_to 1000 ?items
       = Inr [\<lparr>start_ms = 0, end_ms = 500, caption_text = ''a''\<rparr>,
              \<lparr>start_ms = 500, end_ms = 1000, caption_text = ''b''\<rparr>]"
    by code_simp
  note t = minSegMs_refines_spec [OF h1 h2]
  have a: "minSegMs 1000 2 = 500" using t sp by simp
  have b: "scale_to 1000 ?items
       = (case adjust 1000 500 (scale_items 500 (1000 / totalDur ?items) ?items) of
            Inl e \<Rightarrow> Inl e
          | Inr a \<Rightarrow> Inr (layout 1000 0 a))"
    using t l unfolding sp by blast
  show ?thesis using h1 h2 a sp l b ev by blast
qed

subsection \<open>Crossfade offsets\<close>

text \<open>
  C6. For every four segment durations: segments 1 to 3 are raised to at least 301 ms
  (the crossfade of 300 ms plus 1 ms) and segment 4 only to 1 ms; the offset of
  crossfade \<open>k\<close> is \<open>max(0.001, (sum of the first k guarded durations) / 1000 - k * 0.3)\<close>
  seconds; every offset is positive, and the maximum with 0.001 never takes effect.
\<close>

theorem crossfade_offsets:
  "safeSeg1 sg = max (seg1 sg) 301 \<and> safeSeg2 sg = max (seg2 sg) 301
   \<and> safeSeg3 sg = max (seg3 sg) 301 \<and> safeSeg4 sg = max (seg4 sg) 1
   \<and> off1 sg = max (1 / 1000) (safeSeg1 sg / 1000 - 1 * (3 / 10))
   \<and> off2 sg = max (1 / 1000) ((safeSeg1 sg + safeSeg2 sg) / 1000 - 2 * (3 / 10))
   \<and> off3 sg = max (1 / 1000) ((safeSeg1 sg + safeSeg2 sg + safeSeg3 sg) / 1000 - 3 * (3 / 10))
   \<and> 0 < off1 sg \<and> 0 < off2 sg \<and> 0 < off3 sg
   \<and> off1 sg = safeSeg1 sg / 1000 - 3 / 10
   \<and> off2 sg = (safeSeg1 sg + safeSeg2 sg) / 1000 - 2 * (3 / 10)
   \<and> off3 sg = (safeSeg1 sg + safeSeg2 sg + safeSeg3 sg) / 1000 - 3 * (3 / 10)"
proof -
  have s1: "safeSeg1 sg = max (seg1 sg) 301" by (simp add: safeSeg1_def guard_301)
  have s2: "safeSeg2 sg = max (seg2 sg) 301" by (simp add: safeSeg2_def guard_301)
  have s3: "safeSeg3 sg = max (seg3 sg) 301" by (simp add: safeSeg3_def guard_301)
  have s4: "safeSeg4 sg = max (seg4 sg) 1" by (simp add: safeSeg4_def)
  have g1: "301 \<le> safeSeg1 sg" and g2: "301 \<le> safeSeg2 sg" and g3: "301 \<le> safeSeg3 sg"
    using s1 s2 s3 by simp_all
  have o1: "off1 sg = max (1 / 1000) (safeSeg1 sg / 1000 - 1 * (3 / 10))"
    by (simp add: off1_def xfadeDur_def)
  have o2: "off2 sg = max (1 / 1000) ((safeSeg1 sg + safeSeg2 sg) / 1000 - 2 * (3 / 10))"
    by (simp add: off2_def xfadeDur_def)
  have o3: "off3 sg = max (1 / 1000) ((safeSeg1 sg + safeSeg2 sg + safeSeg3 sg) / 1000 - 3 * (3 / 10))"
    by (simp add: off3_def xfadeDur_def)
  have e1: "off1 sg = safeSeg1 sg / 1000 - 3 / 10" using g1 o1 by (simp add: max_def)
  have e2: "off2 sg = (safeSeg1 sg + safeSeg2 sg) / 1000 - 2 * (3 / 10)"
    using g1 g2 o2 by (simp add: max_def)
  have e3: "off3 sg = (safeSeg1 sg + safeSeg2 sg + safeSeg3 sg) / 1000 - 3 * (3 / 10)"
    using g1 g2 g3 o3 by (simp add: max_def)
  have p1: "0 < off1 sg" by (simp add: off1_def)
  have p2: "0 < off2 sg" by (simp add: off2_def)
  have p3: "0 < off3 sg" by (simp add: off3_def)
  show ?thesis using s1 s2 s3 s4 o1 o2 o3 p1 p2 p3 e1 e2 e3 by blast
qed

end
